theory Spec2Isabelle
  imports Complex_Main "HOL-Library.Word" "HOL-Library.Signed_Division"
begin

section \<open>The bottle inspection station: hardware model\<close>

text \<open>
  The sketch \<^verbatim>\<open>BottleNet_April5.ino\<close> is one synchronous control loop. Its functions are
  embedded as state transformers on a record \<open>machine\<close> that holds what the sketch itself
  keeps (the two \<^verbatim>\<open>static\<close> variables of \<^verbatim>\<open>bottleDetected\<close>) and what it has driven on
  its peripherals: the level last written to every output pin, the angle last written to the
  servo, and the trace of all output events in program order. Sensor readings are inputs of
  the functions that take them.

  Integer widths are those of the AVR boards the sketch targets: \<^verbatim>\<open>int\<close> has 16 bits,
  \<^verbatim>\<open>long\<close> and \<^verbatim>\<open>unsigned long\<close> have 32. A \<^verbatim>\<open>float\<close> is read as the real number it
  denotes; rounding of float arithmetic is not modelled.
\<close>

type_synonym pin = nat

abbreviation HIGH :: bool where "HIGH \<equiv> True"
abbreviation LOW :: bool where "LOW \<equiv> False"

datatype pin_mode = INPUT | OUTPUT

datatype event =
    SerialBegin nat
  | SerialPrint string
  | SerialPrintFloat real
  | SerialPrintln string
  | WireBegin
  | LcdInit
  | LcdBacklight
  | LcdClear
  | LcdSetCursor nat nat
  | LcdPrint string
  | LcdPrintFloat real nat
  | ServoAttach pin
  | ServoWrite int
  | PinMode pin pin_mode
  | DigitalWrite pin bool
  | Delay nat
  | DelayMicroseconds nat

record machine =
  lastDebounce :: "32 word"
  lastState :: bool
  pins :: "pin \<Rightarrow> bool"
  servo :: "int option"
  adc_reads :: nat
  trace :: "event list"

subsection \<open>Hardware configuration and system parameters\<close>

definition SERVO_PIN :: pin where "SERVO_PIN = 11"
definition SERVO_OPEN_ANGLE :: int where "SERVO_OPEN_ANGLE = 180"
definition SERVO_CLOSED_ANGLE :: int where "SERVO_CLOSED_ANGLE = 0"

definition IR_SENSOR_PIN :: pin where "IR_SENSOR_PIN = 2"
definition TRIG_PIN :: pin where "TRIG_PIN = 9"
definition ECHO_PIN :: pin where "ECHO_PIN = 10"

definition BUZZER_PIN :: pin where "BUZZER_PIN = 8"
definition GREEN_LED :: pin where "GREEN_LED = 5"
definition RED_LED :: pin where "RED_LED = 6"

definition SMALL_MAX :: real where "SMALL_MAX = 15.0"
definition MEDIUM_MAX :: real where "MEDIUM_MAX = 25.0"
definition CAP_WATER_THRESHOLD :: "16 word" where "CAP_WATER_THRESHOLD = 500"
definition SENSOR_HEIGHT :: real where "SENSOR_HEIGHT = 40.0"

subsection \<open>Peripheral primitives\<close>

text \<open>Every output call appends its event to the trace.\<close>

definition emit :: "event \<Rightarrow> machine \<Rightarrow> machine" where
  "emit e m = m\<lparr>trace := trace m @ [e]\<rparr>"

definition digitalWrite :: "pin \<Rightarrow> bool \<Rightarrow> machine \<Rightarrow> machine" where
  "digitalWrite p v m = emit (DigitalWrite p v) (m\<lparr>pins := (pins m)(p := v)\<rparr>)"

definition gateServo_write :: "int \<Rightarrow> machine \<Rightarrow> machine" where
  "gateServo_write a m = emit (ServoWrite a) (m\<lparr>servo := Some a\<rparr>)"

definition delay :: "nat \<Rightarrow> machine \<Rightarrow> machine" where
  "delay ms = emit (Delay ms)"

text \<open>
  \<^verbatim>\<open>analogRead(CAP_SENSOR_PIN)\<close>: the converter's results are a stream \<open>adc\<close>, indexed by
  the number of conversions made so far.
\<close>

definition analogRead :: "(nat \<Rightarrow> 16 word) \<Rightarrow> machine \<Rightarrow> 16 word \<times> machine" where
  "analogRead adc m = (adc (adc_reads m), m\<lparr>adc_reads := adc_reads m + 1\<rparr>)"

text \<open>A block of statements: the calls of the list, first to last.\<close>

definition seq :: "(machine \<Rightarrow> machine) list \<Rightarrow> machine \<Rightarrow> machine" where
  "seq fs m = fold (\<lambda>f s. f s) fs m"

text \<open>The macro \<^verbatim>\<open>max(a,b) ((a)>(b)?(a):(b))\<close> of the Arduino core.\<close>

definition max_macro :: "real \<Rightarrow> real \<Rightarrow> real" where
  "max_macro a b = (if a > b then a else b)"

section \<open>Core functions\<close>

subsection \<open>Feedback signals\<close>

definition beep :: "nat \<Rightarrow> machine \<Rightarrow> machine" where
  "beep duration = seq [digitalWrite BUZZER_PIN HIGH, delay duration, digitalWrite BUZZER_PIN LOW]"

definition startupBeep :: "machine \<Rightarrow> machine" where
  "startupBeep = seq [beep 100, delay 50, beep 100]"

definition acceptBeep :: "machine \<Rightarrow> machine" where
  "acceptBeep = seq [beep 200, delay 100, beep 200]"

definition rejectBeep :: "machine \<Rightarrow> machine" where
  "rejectBeep = seq [beep 1000]"

text \<open>
  \<^verbatim>\<open>logResults\<close> and \<^verbatim>\<open>updateDisplay\<close> only print: each is the list of its print
  calls, emitted in order. \<^verbatim>\<open>Serial.print(height)\<close> prints a float with the default two
  decimals, \<^verbatim>\<open>lcd.print(height, 1)\<close> with one.
\<close>

definition log_events :: "real \<Rightarrow> string \<Rightarrow> bool \<Rightarrow> bool \<Rightarrow> event list" where
  "log_events height size' hasWater accepted =
     [SerialPrint ''\<newline>Height: '', SerialPrintFloat height, SerialPrint ''cm'',
      SerialPrint '' | Size: '', SerialPrint size',
      SerialPrint '' | Water: '', SerialPrint (if hasWater then ''Yes'' else ''No''),
      SerialPrint '' | Status: '',
      SerialPrintln (if accepted then ''ACCEPTED'' else ''REJECTED'')]"

definition logResults :: "real \<Rightarrow> string \<Rightarrow> bool \<Rightarrow> bool \<Rightarrow> machine \<Rightarrow> machine" where
  "logResults height size' hasWater accepted =
     seq (map emit (log_events height size' hasWater accepted))"

subsection \<open>Hardware control\<close>

definition initializeLCD :: "machine \<Rightarrow> machine" where
  "initializeLCD = seq
     [emit LcdInit, emit LcdBacklight,
      emit LcdClear, emit (LcdSetCursor 0 0), emit (LcdPrint ''LCD Test''), delay 500]"

definition display_events :: "real \<Rightarrow> string \<Rightarrow> bool \<Rightarrow> bool \<Rightarrow> event list" where
  "display_events height size' hasWater accepted =
     [LcdClear,
      LcdSetCursor 0 0, LcdPrint ''Bottle Detected   '',
      LcdSetCursor 0 1, LcdPrint ''H:'', LcdPrintFloat height 1, LcdPrint ''cm  '', LcdPrint size',
      LcdSetCursor 0 2, LcdPrint ''Water:'', LcdPrint (if hasWater then ''Present  '' else ''Absent  ''),
      LcdSetCursor 0 3, LcdPrint ''Status:'', LcdPrint (if accepted then ''ACCEPTED'' else ''REJECTED'')]"

definition updateDisplay :: "real \<Rightarrow> string \<Rightarrow> bool \<Rightarrow> bool \<Rightarrow> machine \<Rightarrow> machine" where
  "updateDisplay height size' hasWater accepted =
     seq (map emit (display_events height size' hasWater accepted))"

text \<open>
  The two sweeps. \<open>pos\<close> is the loop variable of the \<^verbatim>\<open>for\<close> statement; it stays within
  \<open>-2 .. 182\<close>, far from the limits of a 16-bit \<^verbatim>\<open>int\<close>.
\<close>

function openGate_loop :: "int \<Rightarrow> machine \<Rightarrow> machine" where
  "openGate_loop pos m =
     (if pos \<le> SERVO_OPEN_ANGLE
      then openGate_loop (pos + 2) (delay 20 (gateServo_write pos m))
      else m)"
  by pat_completeness auto
termination
  by (relation "measure (\<lambda>(pos, m). nat (SERVO_OPEN_ANGLE + 1 - pos))") auto

definition openGate :: "machine \<Rightarrow> machine" where
  "openGate m = openGate_loop SERVO_CLOSED_ANGLE m"

function closeGate_loop :: "int \<Rightarrow> machine \<Rightarrow> machine" where
  "closeGate_loop pos m =
     (if pos \<ge> SERVO_CLOSED_ANGLE
      then closeGate_loop (pos - 2) (delay 20 (gateServo_write pos m))
      else m)"
  by pat_completeness auto
termination
  by (relation "measure (\<lambda>(pos, m). nat (pos + 1 - SERVO_CLOSED_ANGLE))") auto

definition closeGate :: "machine \<Rightarrow> machine" where
  "closeGate m = closeGate_loop SERVO_OPEN_ANGLE m"

subsection \<open>Measurement\<close>

text \<open>
  \<^verbatim>\<open>measureBottleHeight\<close>: \<open>echo\<close> is the value returned by \<^verbatim>\<open>pulseIn(ECHO_PIN, HIGH)\<close>,
  an \<^verbatim>\<open>unsigned long\<close>; the assignment to \<^verbatim>\<open>long duration\<close> reads it as a signed value.
\<close>

definition measureBottleHeight :: "32 word \<Rightarrow> machine \<Rightarrow> real \<times> machine" where
  "measureBottleHeight echo m =
     (let m1 = seq [digitalWrite TRIG_PIN HIGH, emit (DelayMicroseconds 10),
                    digitalWrite TRIG_PIN LOW] m;
          duration = sint echo;
          distance = real_of_int duration * 0.0343 / 2
      in (max_macro (SENSOR_HEIGHT - distance) 0.0, m1))"

definition classifyBottleSize :: "real \<Rightarrow> string" where
  "classifyBottleSize height =
     (if height \<le> SMALL_MAX then ''Small''
      else if height \<le> MEDIUM_MAX then ''Medium''
      else ''Large'')"

text \<open>
  \<^verbatim>\<open>checkWaterPresence\<close>: \<open>avg\<close> is a 16-bit \<^verbatim>\<open>int\<close>; \<^verbatim>\<open>avg /= 5\<close> is C's division, which
  truncates towards zero, and \<^verbatim>\<open>avg > CAP_WATER_THRESHOLD\<close> compares signed values.
\<close>

function checkWaterPresence_loop ::
  "int \<Rightarrow> 16 word \<Rightarrow> (nat \<Rightarrow> 16 word) \<Rightarrow> machine \<Rightarrow> 16 word \<times> machine" where
  "checkWaterPresence_loop i avg adc m =
     (if i < 5
      then (let (v, m1) = analogRead adc m
            in checkWaterPresence_loop (i + 1) (avg + v) adc (delay 10 m1))
      else (avg, m))"
  by pat_completeness auto
termination
  by (relation "measure (\<lambda>(i, avg, adc, m). nat (5 - i))") auto

definition checkWaterPresence :: "(nat \<Rightarrow> 16 word) \<Rightarrow> machine \<Rightarrow> bool \<times> machine" where
  "checkWaterPresence adc m =
     (let (avg, m1) = checkWaterPresence_loop 0 0 adc m;
          avg = (word_of_int (sint avg sdiv 5) :: 16 word)
      in (sint avg > sint CAP_WATER_THRESHOLD, m1))"

subsection \<open>Detection and inspection\<close>

text \<open>
  \<^verbatim>\<open>bottleDetected\<close>: \<open>currentState\<close> is the level read from the infrared sensor, \<open>now1\<close>
  and \<open>now2\<close> are the values of the two calls of \<^verbatim>\<open>millis()\<close>, in the order of the source.
  The subtraction is unsigned 32-bit arithmetic. Returning \<^verbatim>\<open>true\<close> leaves
  \<^verbatim>\<open>lastState\<close> as it was.
\<close>

definition bottleDetected :: "bool \<Rightarrow> 32 word \<Rightarrow> 32 word \<Rightarrow> machine \<Rightarrow> bool \<times> machine" where
  "bottleDetected currentState now1 now2 m =
     (let m1 = (if currentState \<noteq> lastState m then m\<lparr>lastDebounce := now1\<rparr> else m)
      in if now2 - lastDebounce m1 > 50 \<and> currentState = LOW then (True, m1)
         else (False, m1\<lparr>lastState := currentState\<rparr>))"

definition inspectBottle :: "32 word \<Rightarrow> (nat \<Rightarrow> 16 word) \<Rightarrow> machine \<Rightarrow> machine" where
  "inspectBottle echo adc m =
     (let (height, m1) = measureBottleHeight echo m;
          size' = classifyBottleSize height;
          (hasWater, m2) = checkWaterPresence adc m1;
          accepted = (\<not> hasWater);
          m3 = updateDisplay height size' hasWater accepted m2;
          m4 = digitalWrite GREEN_LED (if accepted then HIGH else LOW) m3;
          m5 = digitalWrite RED_LED (if accepted then LOW else HIGH) m4;
          m6 = (if accepted
                then seq [openGate, acceptBeep, delay 5000, closeGate] m5
                else rejectBeep m5)
      in logResults height size' hasWater accepted m6)"

subsection \<open>Initialization and main loop\<close>

definition setup' :: "machine \<Rightarrow> machine" where
  "setup' = seq
     [emit (SerialBegin 9600),
      emit (SerialPrintln ''Bottle Inspection System Booting...''),
      emit WireBegin,
      initializeLCD,
      emit (ServoAttach SERVO_PIN),
      gateServo_write SERVO_CLOSED_ANGLE,
      emit (PinMode IR_SENSOR_PIN INPUT),
      emit (PinMode TRIG_PIN OUTPUT),
      emit (PinMode ECHO_PIN INPUT),
      digitalWrite TRIG_PIN LOW,
      emit (PinMode BUZZER_PIN OUTPUT),
      emit (PinMode GREEN_LED OUTPUT),
      emit (PinMode RED_LED OUTPUT),
      digitalWrite GREEN_LED LOW,
      digitalWrite RED_LED LOW,
      emit LcdClear,
      emit (LcdSetCursor 0 0),
      emit (LcdPrint ''System Ready''),
      startupBeep,
      delay 1000,
      emit LcdClear]"

text \<open>
  One call of \<^verbatim>\<open>bottleDetected\<close> as the loop makes it: a \<open>tick\<close> is the clock, in
  milliseconds since power-on, and the sensor level at that call. \<^verbatim>\<open>millis()\<close> is the
  clock truncated to 32 bits; both calls within one \<^verbatim>\<open>bottleDetected\<close> see the same count.
\<close>

type_synonym tick = "nat \<times> bool"

definition poll :: "tick \<Rightarrow> machine \<Rightarrow> bool \<times> machine" where
  "poll tk m = bottleDetected (snd tk) (word_of_nat (fst tk)) (word_of_nat (fst tk)) m"

text \<open>The results of polling at each tick of a list, first to last, and the final state.\<close>

fun polls :: "tick list \<Rightarrow> machine \<Rightarrow> bool list \<times> machine" where
  "polls [] m = ([], m)"
| "polls (tk # tks) m =
     (let (r, m1) = poll tk m; (rs, m2) = polls tks m1 in (r # rs, m2))"

text \<open>
  \<^verbatim>\<open>while (bottleDetected()) { delay(10); }\<close> over the ticks still to come: the state and
  the remaining ticks once a poll returns \<^verbatim>\<open>false\<close>, and \<open>None\<close> when the loop is still
  waiting after the last tick given.
\<close>

fun waitForPass :: "tick list \<Rightarrow> machine \<Rightarrow> (machine \<times> tick list) option" where
  "waitForPass [] m = None"
| "waitForPass (tk # tks) m =
     (let (r, m1) = poll tk m
      in if r then waitForPass tks (delay 10 m1) else Some (m1, tks))"

text \<open>
  One pass through \<^verbatim>\<open>loop()\<close>. \<open>echo\<close> is the echo time an inspection started in this
  pass would measure.
\<close>

fun loop :: "32 word \<Rightarrow> (nat \<Rightarrow> 16 word) \<Rightarrow> tick list \<Rightarrow> machine \<Rightarrow> (machine \<times> tick list) option" where
  "loop echo adc [] m = None"
| "loop echo adc (tk # tks) m =
     (let (r, m1) = poll tk m
      in if r
         then (case waitForPass tks (inspectBottle echo adc m1) of
                 None \<Rightarrow> None
               | Some (m2, tks') \<Rightarrow> Some (seq [delay 2000, emit LcdClear, delay 10] m2, tks'))
         else Some (delay 10 m1, tks))"

text \<open>Successive passes through \<^verbatim>\<open>loop()\<close>, one for each echo time of the list.\<close>

fun loops :: "32 word list \<Rightarrow> (nat \<Rightarrow> 16 word) \<Rightarrow> tick list \<Rightarrow> machine \<Rightarrow> (machine \<times> tick list) option" where
  "loops [] adc tks m = Some (m, tks)"
| "loops (echo # echos) adc tks m =
     (case loop echo adc tks m of
        None \<Rightarrow> None
      | Some (m1, tks') \<Rightarrow> loops echos adc tks' m1)"

text \<open>The state at power-on: the static initialisers, nothing driven yet.\<close>

definition power_on :: machine where
  "power_on = \<lparr>lastDebounce = 0, lastState = HIGH, pins = (\<lambda>p. LOW), servo = None,
               adc_reads = 0, trace = []\<rparr>"

section \<open>Vocabulary of the properties\<close>

text \<open>The events a call of \<open>f\<close> from state \<open>m\<close> adds to the trace.\<close>

definition emitted :: "(machine \<Rightarrow> machine) \<Rightarrow> machine \<Rightarrow> event list" where
  "emitted f m = drop (length (trace m)) (trace (f m))"

text \<open>The angles commanded to the servo by a list of events, in order.\<close>

fun servo_angles :: "event list \<Rightarrow> int list" where
  "servo_angles [] = []"
| "servo_angles (ServoWrite a # es) = a # servo_angles es"
| "servo_angles (e # es) = servo_angles es"

text \<open>A sweep through the angles \<open>as\<close>: each is written and followed by a pause of 20 ms.\<close>

definition sweep :: "int list \<Rightarrow> event list" where
  "sweep as = concat (map (\<lambda>a. [ServoWrite a, Delay 20]) as)"

text \<open>The events of \<^verbatim>\<open>beep(duration)\<close>.\<close>

definition tone :: "nat \<Rightarrow> event list" where
  "tone duration = [DigitalWrite BUZZER_PIN HIGH, Delay duration, DigitalWrite BUZZER_PIN LOW]"

text \<open>The trigger pulse of \<^verbatim>\<open>measureBottleHeight\<close>.\<close>

definition ping :: "event list" where
  "ping = [DigitalWrite TRIG_PIN HIGH, DelayMicroseconds 10, DigitalWrite TRIG_PIN LOW]"

text \<open>
  The events of the accept branch of \<^verbatim>\<open>inspectBottle\<close>: the opening sweep, the accept
  tone, the hold of 5000 ms, the closing sweep.
\<close>

definition accept_events :: "event list" where
  "accept_events = sweep (map (\<lambda>k. 2 * int k) [0..<91]) @ tone 200 @ [Delay 100] @ tone 200
     @ [Delay 5000] @ sweep (map (\<lambda>k. 180 - 2 * int k) [0..<91])"

text \<open>The levels of the green and the red LED.\<close>

definition led_levels :: "machine \<Rightarrow> bool \<times> bool" where
  "led_levels m = (pins m GREEN_LED, pins m RED_LED)"

text \<open>A converter that returns \<open>v\<close> at every conversion.\<close>

definition steady :: "16 word \<Rightarrow> nat \<Rightarrow> 16 word" where
  "steady v k = v"

text \<open>
  The maximal runs of consecutive \<open>LOW\<close> readings of a tick list, each as the list of its
  clock values.
\<close>

function low_runs :: "tick list \<Rightarrow> nat list list" where
  "low_runs [] = []"
| "low_runs (tk # tks) =
     (if snd tk = LOW
      then (fst tk # map fst (takeWhile (\<lambda>x. snd x = LOW) tks))
             # low_runs (dropWhile (\<lambda>x. snd x = LOW) tks)
      else low_runs tks)"
  by pat_completeness auto
termination
  by (relation "measure length") (auto simp: less_Suc_eq_le length_dropWhile_le)

section \<open>Properties\<close>

subsection \<open>Effects of the primitives and of the gate sweeps\<close>

lemma seq_Nil [simp]: "seq [] m = m"
  by (simp add: seq_def)

lemma seq_Cons [simp]: "seq (f # fs) m = seq fs (f m)"
  by (simp add: seq_def)

lemma emit_fields [simp]:
  "trace (emit e m) = trace m @ [e]"
  "pins (emit e m) = pins m"
  "servo (emit e m) = servo m"
  "adc_reads (emit e m) = adc_reads m"
  "lastState (emit e m) = lastState m"
  "lastDebounce (emit e m) = lastDebounce m"
  by (simp_all add: emit_def)

lemma delay_eq: "delay n m = m\<lparr>trace := trace m @ [Delay n]\<rparr>"
  by (simp add: delay_def emit_def)

lemma gateServo_write_eq:
  "gateServo_write a m = m\<lparr>servo := Some a, trace := trace m @ [ServoWrite a]\<rparr>"
  by (simp add: gateServo_write_def emit_def)

lemma digitalWrite_eq:
  "digitalWrite p v m = m\<lparr>pins := (pins m)(p := v), trace := trace m @ [DigitalWrite p v]\<rparr>"
  by (simp add: digitalWrite_def emit_def)

declare openGate_loop.simps [simp del] closeGate_loop.simps [simp del]


lemma openGate_loop_eq:
  "k \<le> 90 \<Longrightarrow> openGate_loop (2 * int k) m =
     m\<lparr>servo := Some 180, trace := trace m @ sweep (map (\<lambda>j. 2 * int j) [k..<91])\<rparr>"
proof (induction "90 - k" arbitrary: k m)
  case 0
  then have k: "k = 90" by simp
  show ?case
    by (simp add: k openGate_loop.simps [of 180] openGate_loop.simps [of 182] SERVO_OPEN_ANGLE_def
        delay_eq gateServo_write_eq sweep_def)
next
  case (Suc n)
  then have k: "k < 90" "n = 90 - Suc k" "Suc k \<le> 90" by simp_all
  have "openGate_loop (2 * int k) m
      = openGate_loop (2 * int (Suc k)) (delay 20 (gateServo_write (2 * int k) m))"
    using k by (subst openGate_loop.simps) (simp add: SERVO_OPEN_ANGLE_def algebra_simps)
  also have "\<dots> = m\<lparr>servo := Some 180, trace := trace m @ sweep (map (\<lambda>j. 2 * int j) [k..<91])\<rparr>"
    unfolding Suc.hyps(1) [OF k(2) k(3)]
    using k by (simp add: delay_eq gateServo_write_eq sweep_def upt_conv_Cons [of k 91])
  finally show ?case .
qed

lemma closeGate_loop_eq:
  "k \<le> 90 \<Longrightarrow> closeGate_loop (180 - 2 * int k) m =
     m\<lparr>servo := Some 0, trace := trace m @ sweep (map (\<lambda>j. 180 - 2 * int j) [k..<91])\<rparr>"
proof (induction "90 - k" arbitrary: k m)
  case 0
  then have k: "k = 90" by simp
  show ?case
    by (simp add: k closeGate_loop.simps [of 0] closeGate_loop.simps [of "-2"] SERVO_CLOSED_ANGLE_def
        delay_eq gateServo_write_eq sweep_def)
next
  case (Suc n)
  then have k: "k < 90" "n = 90 - Suc k" "Suc k \<le> 90" by simp_all
  have "closeGate_loop (180 - 2 * int k) m
      = closeGate_loop (180 - 2 * int (Suc k)) (delay 20 (gateServo_write (180 - 2 * int k) m))"
    using k by (subst closeGate_loop.simps) (simp add: SERVO_CLOSED_ANGLE_def algebra_simps)
  also have "\<dots> = m\<lparr>servo := Some 0, trace := trace m @ sweep (map (\<lambda>j. 180 - 2 * int j) [k..<91])\<rparr>"
    unfolding Suc.hyps(1) [OF k(2) k(3)]
    using k by (simp add: delay_eq gateServo_write_eq sweep_def upt_conv_Cons [of k 91])
  finally show ?case .
qed

lemma openGate_eq:
  "openGate m = m\<lparr>servo := Some 180, trace := trace m @ sweep (map (\<lambda>j. 2 * int j) [0..<91])\<rparr>"
  using openGate_loop_eq [of 0 m] by (simp add: openGate_def SERVO_CLOSED_ANGLE_def)

lemma closeGate_eq:
  "closeGate m = m\<lparr>servo := Some 0, trace := trace m @ sweep (map (\<lambda>j. 180 - 2 * int j) [0..<91])\<rparr>"
  using closeGate_loop_eq [of 0 m] by (simp add: closeGate_def SERVO_OPEN_ANGLE_def)

lemma emitted_append: "trace (f m) = trace m @ es \<Longrightarrow> emitted f m = es"
  by (simp add: emitted_def)

lemma servo_angles_append [simp]: "servo_angles (xs @ ys) = servo_angles xs @ servo_angles ys"
  by (induction xs rule: servo_angles.induct) simp_all

lemma servo_angles_sweep [simp]: "servo_angles (sweep as) = as"
  by (induction as) (simp_all add: sweep_def)

lemma sorted_up: "sorted_wrt (<) (map (\<lambda>k. 2 * int k) [0..<n])"
  by (simp add: sorted_wrt_map)

lemma sorted_down: "sorted_wrt (>) (map (\<lambda>k. 180 - 2 * int k) [0..<n])"
  by (simp add: sorted_wrt_map)

lemma range_up: "list_all (\<lambda>a. 0 \<le> a \<and> a \<le> 180) (map (\<lambda>k. 2 * int k) [0..<91])"
  by (simp add: list_all_iff)

lemma range_down: "list_all (\<lambda>a. 0 \<le> a \<and> a \<le> 180) (map (\<lambda>k. 180 - 2 * int k) [0..<91])"
  by (simp add: list_all_iff)


text \<open>
  Claim C7. \<^verbatim>\<open>openGate\<close> commands the angles 0, 2, .., 180 in increasing order and
  \<^verbatim>\<open>closeGate\<close> the angles 180, 178, .., 0 in decreasing order, each write followed by
  a pause of 20 ms and nothing else; every commanded angle lies in 0 .. 180, the opening
  sweep starts at 0 and ends at 180, the closing sweep starts at 180 and ends at 0.
\<close>

theorem gate_sweeps:
  "emitted openGate m = sweep (map (\<lambda>k. 2 * int k) [0..<91])
   \<and> emitted closeGate m = sweep (map (\<lambda>k. 180 - 2 * int k) [0..<91])
   \<and> sorted_wrt (<) (servo_angles (emitted openGate m))
   \<and> sorted_wrt (>) (servo_angles (emitted closeGate m))
   \<and> list_all (\<lambda>a. 0 \<le> a \<and> a \<le> 180) (servo_angles (emitted openGate m))
   \<and> list_all (\<lambda>a. 0 \<le> a \<and> a \<le> 180) (servo_angles (emitted closeGate m))
   \<and> hd (servo_angles (emitted openGate m)) = 0
   \<and> last (servo_angles (emitted openGate m)) = 180
   \<and> hd (servo_angles (emitted closeGate m)) = 180
   \<and> last (servo_angles (emitted closeGate m)) = 0
   \<and> servo (openGate m) = Some 180
   \<and> servo (closeGate m) = Some 0"
proof -
  have up: "emitted openGate m = sweep (map (\<lambda>k. 2 * int k) [0..<91])"
    by (rule emitted_append) (simp add: openGate_eq)
  have down: "emitted closeGate m = sweep (map (\<lambda>k. 180 - 2 * int k) [0..<91])"
    by (rule emitted_append) (simp add: closeGate_eq)
  have upt91: "[0..<91] = 0 # [1..<90] @ [90]"
    by (simp add: upt_rec [of 0 91] upt_Suc_append [symmetric] del: upt_Suc)
  have ends_up: "hd (map (\<lambda>k. 2 * int k) [0..<91]) = 0"
    "last (map (\<lambda>k. 2 * int k) [0..<91]) = 180"
    by (simp_all add: upt91 del: upt_Suc)
  have ends_down: "hd (map (\<lambda>k. 180 - 2 * int k) [0..<91]) = 180"
    "last (map (\<lambda>k. 180 - 2 * int k) [0..<91]) = 0"
    by (simp_all add: upt91 del: upt_Suc)
  show ?thesis
    unfolding up down servo_angles_sweep
    using sorted_up [of 91] sorted_down [of 91] range_up range_down ends_up ends_down
    by (simp add: openGate_eq closeGate_eq)
qed


subsection \<open>Classification and height\<close>

text \<open>
  Claim C2. For every height \<open>h\<close>, \<^verbatim>\<open>classifyBottleSize\<close> returns Small exactly when
  \<open>h \<le> 15\<close>, Medium exactly when \<open>15 < h \<le> 25\<close> and Large exactly when \<open>h > 25\<close>; it
  returns one of the three labels, and the boundaries 15 and 25 fall in the lower band.
\<close>

theorem classifyBottleSize_bands:
  "(classifyBottleSize h = ''Small'' \<longleftrightarrow> h \<le> 15.0)
   \<and> (classifyBottleSize h = ''Medium'' \<longleftrightarrow> 15.0 < h \<and> h \<le> 25.0)
   \<and> (classifyBottleSize h = ''Large'' \<longleftrightarrow> h > 25.0)
   \<and> classifyBottleSize h \<in> {''Small'', ''Medium'', ''Large''}
   \<and> classifyBottleSize 15.0 = ''Small''
   \<and> classifyBottleSize 25.0 = ''Medium''"
  by (simp add: classifyBottleSize_def SMALL_MAX_def MEDIUM_MAX_def)


text \<open>
  Claim C3. With \<open>distance = duration * 0.0343 / 2\<close>, \<^verbatim>\<open>measureBottleHeight\<close> returns
  \<open>max (40 - distance) 0\<close>, which is never negative, for every echo time (so for every
  duration \<open>\<ge> 0\<close>); an echo time of zero gives exactly 40, the mounting height.
\<close>

theorem measureBottleHeight_clamped:
  "fst (measureBottleHeight echo m) = max (40.0 - real_of_int (sint echo) * 0.0343 / 2) 0.0
   \<and> 0 \<le> fst (measureBottleHeight echo m)
   \<and> fst (measureBottleHeight 0 m) = 40.0"
  by (simp add: measureBottleHeight_def max_macro_def SENSOR_HEIGHT_def Let_def max_def)

subsection \<open>Liquid sampling\<close>

lemma checkWaterPresence_loop_eq:
  "checkWaterPresence_loop 0 0 adc m =
     (adc (adc_reads m) + adc (adc_reads m + 1) + adc (adc_reads m + 2)
        + adc (adc_reads m + 3) + adc (adc_reads m + 4),
      m\<lparr>adc_reads := adc_reads m + 5, trace := trace m @ replicate 5 (Delay 10)\<rparr>)"
  by (simp add: analogRead_def delay_eq numeral_eq_Suc)

declare checkWaterPresence_loop.simps [simp del]

lemma sdiv_nonneg: "0 \<le> k \<Longrightarrow> 0 < l \<Longrightarrow> k sdiv l = k div (l::int)"
  by (auto simp: signed_divide_int_eq_divide_int sgn_if)

lemma sint_small: "0 \<le> k \<Longrightarrow> k < 2 ^ 15 \<Longrightarrow> sint (word_of_int k :: 16 word) = k"
  by (simp add: sint_sbintrunc' signed_take_bit_int_eq_self)

lemma sum5: "(\<Sum>i<(5::nat). f i) = f 0 + f 1 + f 2 + f 3 + (f 4 :: nat)"
  by (simp add: numeral_eq_Suc)

lemma word5_sum:
  fixes a b c d e :: "16 word"
  shows "a + b + c + d + e = word_of_int (int (unat a + unat b + unat c + unat d + unat e))"
  by simp


text \<open>
  Claim C4. \<^verbatim>\<open>checkWaterPresence\<close> takes exactly five conversions, each followed by a
  pause of 10 ms, and, for readings in the converter's range 0 .. 1023, returns true exactly
  when the truncated average of the five readings is greater than 500; an average of
  exactly 500 gives false.
\<close>

theorem checkWaterPresence_average:
  assumes "\<forall>i<5. adc (adc_reads m + i) \<le> 1023"
  shows "(fst (checkWaterPresence adc m) \<longleftrightarrow> 500 < (\<Sum>i<5. unat (adc (adc_reads m + i))) div 5)
         \<and> adc_reads (snd (checkWaterPresence adc m)) = adc_reads m + 5
         \<and> emitted (\<lambda>s. snd (checkWaterPresence adc s)) m = replicate 5 (Delay 10)"
proof -
  define S where "S = (\<Sum>i<5. unat (adc (adc_reads m + i)))"
  have bound: "unat (adc (adc_reads m + i)) \<le> 1023" if "i < 5" for i
    using assms that by (simp add: word_le_nat_alt)
  have S: "S = unat (adc (adc_reads m)) + unat (adc (adc_reads m + 1)) + unat (adc (adc_reads m + 2))
              + unat (adc (adc_reads m + 3)) + unat (adc (adc_reads m + 4))"
    by (simp add: S_def sum5)
  have "S \<le> 5115"
    using bound [of 0] bound [of 1] bound [of 2] bound [of 3] bound [of 4] unfolding S by simp
  then have small: "0 \<le> int S" "int S < 2 ^ 15" "0 \<le> int S div 5" "int S div 5 < 2 ^ 15"
    by simp_all
  have loop: "fst (checkWaterPresence_loop 0 0 adc m) = word_of_int (int S)"
    unfolding checkWaterPresence_loop_eq fst_conv S by (rule word5_sum)
  have avg: "sint (word_of_int (sint (word_of_int (int S) :: 16 word) sdiv 5) :: 16 word) = int S div 5"
  proof -
    have "sint (word_of_int (int S) :: 16 word) = int S"
      using small by (intro sint_small)
    moreover have "int S sdiv 5 = int S div 5"
      by (rule sdiv_nonneg) simp_all
    moreover have "sint (word_of_int (int S div 5) :: 16 word) = int S div 5"
      using small by (intro sint_small)
    ultimately show ?thesis by (simp only:)
  qed
  have "fst (checkWaterPresence adc m) \<longleftrightarrow> 500 < int S div 5"
    by (simp only: checkWaterPresence_def split_beta Let_def fst_conv loop avg)
      (simp add: CAP_WATER_THRESHOLD_def)
  also have "int S div 5 = int (S div 5)"
    by (simp add: zdiv_int)
  finally have result: "fst (checkWaterPresence adc m) \<longleftrightarrow> 500 < S div 5"
    by simp
  have state: "snd (checkWaterPresence adc m) =
      m\<lparr>adc_reads := adc_reads m + 5, trace := trace m @ replicate 5 (Delay 10)\<rparr>"
    by (simp add: checkWaterPresence_def split_beta Let_def checkWaterPresence_loop_eq)
  show ?thesis
    using result by (simp add: state emitted_def S_def)
qed


text \<open>Five readings of 520 give true; five of 100, and five of 500, give false.\<close>

theorem checkWaterPresence_average_witness:
  "fst (checkWaterPresence (steady 520) power_on)
   \<and> \<not> fst (checkWaterPresence (steady 100) power_on)
   \<and> \<not> fst (checkWaterPresence (steady 500) power_on)
   \<and> adc_reads (snd (checkWaterPresence (steady 520) power_on)) = 5"
  using checkWaterPresence_average [of "steady 520" power_on]
    checkWaterPresence_average [of "steady 100" power_on]
    checkWaterPresence_average [of "steady 500" power_on]
  by (simp add: steady_def power_on_def sum5)

subsection \<open>Inspection\<close>

lemma seq_map_emit: "seq (map emit es) m = m\<lparr>trace := trace m @ es\<rparr>"
  by (induction es arbitrary: m) (simp_all add: emit_def)

lemma beep_eq:
  "beep d m = m\<lparr>pins := (pins m)(BUZZER_PIN := LOW), trace := trace m @ tone d\<rparr>"
  by (simp add: beep_def digitalWrite_eq delay_eq tone_def)

lemma acceptBeep_eq:
  "acceptBeep m = m\<lparr>pins := (pins m)(BUZZER_PIN := LOW),
                      trace := trace m @ tone 200 @ [Delay 100] @ tone 200\<rparr>"
  by (simp add: acceptBeep_def beep_eq delay_eq)

lemma rejectBeep_eq:
  "rejectBeep m = m\<lparr>pins := (pins m)(BUZZER_PIN := LOW), trace := trace m @ tone 1000\<rparr>"
  by (simp add: rejectBeep_def beep_eq)

lemma startupBeep_eq:
  "startupBeep m = m\<lparr>pins := (pins m)(BUZZER_PIN := LOW),
                       trace := trace m @ tone 100 @ [Delay 50] @ tone 100\<rparr>"
  by (simp add: startupBeep_def beep_eq delay_eq)

lemma measureBottleHeight_state:
  "snd (measureBottleHeight echo m) = m\<lparr>pins := (pins m)(TRIG_PIN := LOW), trace := trace m @ ping\<rparr>"
  by (simp add: measureBottleHeight_def Let_def digitalWrite_eq emit_def ping_def)

lemma measureBottleHeight_value:
  "fst (measureBottleHeight echo m) = fst (measureBottleHeight echo m')"
  by (simp add: measureBottleHeight_def Let_def)

lemma checkWaterPresence_state:
  "snd (checkWaterPresence adc m) =
     m\<lparr>adc_reads := adc_reads m + 5, trace := trace m @ replicate 5 (Delay 10)\<rparr>"
  by (simp add: checkWaterPresence_def split_beta Let_def checkWaterPresence_loop_eq)

lemma checkWaterPresence_value:
  "adc_reads m = adc_reads m' \<Longrightarrow> fst (checkWaterPresence adc m) = fst (checkWaterPresence adc m')"
  by (simp add: checkWaterPresence_def split_beta Let_def checkWaterPresence_loop_eq)

lemma inspectBottle_eq:
  "inspectBottle echo adc m =
     (let h = fst (measureBottleHeight echo m);
          sz = classifyBottleSize h;
          w = fst (checkWaterPresence adc m)
      in m\<lparr>pins := (pins m)(TRIG_PIN := LOW, GREEN_LED := \<not> w, RED_LED := w, BUZZER_PIN := LOW),
           servo := (if w then servo m else Some 0),
           adc_reads := adc_reads m + 5,
           trace := trace m @ ping @ replicate 5 (Delay 10) @ display_events h sz w (\<not> w)
             @ [DigitalWrite GREEN_LED (\<not> w), DigitalWrite RED_LED w]
             @ (if w then tone 1000 else accept_events)
             @ log_events h sz w (\<not> w)\<rparr>)"
proof -
  define m1 where "m1 = snd (measureBottleHeight echo m)"
  have w: "fst (checkWaterPresence adc m1) = fst (checkWaterPresence adc m)"
    by (rule checkWaterPresence_value) (simp add: m1_def measureBottleHeight_state)
  show ?thesis
    unfolding inspectBottle_def split_beta Let_def m1_def [symmetric] w
    unfolding m1_def
    by (simp add: measureBottleHeight_state checkWaterPresence_state updateDisplay_def
        logResults_def seq_map_emit digitalWrite_eq openGate_eq closeGate_eq acceptBeep_eq
        rejectBeep_eq delay_eq accept_events_def)
qed

lemma servo_angles_quiet [simp]:
  "servo_angles ping = []"
  "servo_angles (tone d) = []"
  "servo_angles (replicate n (Delay k)) = []"
  "servo_angles (display_events h sz w a) = []"
  "servo_angles (log_events h sz w a) = []"
  by (induction n) (simp_all add: ping_def tone_def display_events_def log_events_def)

lemma servo_angles_accept_events:
  "servo_angles accept_events = map (\<lambda>k. 2 * int k) [0..<91] @ map (\<lambda>k. 180 - 2 * int k) [0..<91]"
  by (simp add: accept_events_def)

lemma hold_not_in_quiet:
  "Delay 5000 \<notin> set ping"
  "Delay 5000 \<notin> set (tone 1000)"
  "Delay 5000 \<notin> set (replicate n (Delay 10))"
  "Delay 5000 \<notin> set (display_events h sz w a)"
  "Delay 5000 \<notin> set (log_events h sz w a)"
  by (simp_all add: ping_def tone_def display_events_def log_events_def)


text \<open>
  Claim C1. The accept decision of \<^verbatim>\<open>inspectBottle\<close> is the negation of the liquid
  reading: the green LED is driven to \<open>\<not> hasWater\<close> and the red LED to \<open>hasWater\<close>, the
  display and the log report ACCEPTED exactly when \<open>hasWater\<close> is false, for every echo time;
  the echo time, hence the measured height and the size label, does not affect the decision.
\<close>

theorem accept_is_not_hasWater:
  "pins (inspectBottle echo adc m) GREEN_LED = (\<not> fst (checkWaterPresence adc m))
   \<and> pins (inspectBottle echo adc m) RED_LED = fst (checkWaterPresence adc m)
   \<and> LcdPrint (if fst (checkWaterPresence adc m) then ''REJECTED'' else ''ACCEPTED'')
        \<in> set (emitted (inspectBottle echo adc) m)
   \<and> last (emitted (inspectBottle echo adc) m)
        = SerialPrintln (if fst (checkWaterPresence adc m) then ''REJECTED'' else ''ACCEPTED'')
   \<and> led_levels (inspectBottle echo adc m) = led_levels (inspectBottle echo' adc m)"
  by (simp add: inspectBottle_eq Let_def emitted_def led_levels_def
      GREEN_LED_def RED_LED_def BUZZER_PIN_def TRIG_PIN_def display_events_def log_events_def)


text \<open>
  Claim C8. The events of one inspection are the trigger pulse, the five sampling pauses, the
  display update, the two LED writes, then the reject tone of 1000 ms alone when the bottle
  is rejected, or the opening sweep, the accept tone, the hold of 5000 ms and the closing
  sweep when it is accepted, and last the log line. On a rejection no angle is commanded,
  no pause of 5000 ms is made and the servo's last commanded angle is unchanged.
\<close>

theorem reject_leaves_gate:
  "emitted (inspectBottle echo adc) m =
     ping @ replicate 5 (Delay 10)
     @ display_events (fst (measureBottleHeight echo m))
         (classifyBottleSize (fst (measureBottleHeight echo m)))
         (fst (checkWaterPresence adc m)) (\<not> fst (checkWaterPresence adc m))
     @ [DigitalWrite GREEN_LED (\<not> fst (checkWaterPresence adc m)),
        DigitalWrite RED_LED (fst (checkWaterPresence adc m))]
     @ (if fst (checkWaterPresence adc m) then tone 1000 else accept_events)
     @ log_events (fst (measureBottleHeight echo m))
         (classifyBottleSize (fst (measureBottleHeight echo m)))
         (fst (checkWaterPresence adc m)) (\<not> fst (checkWaterPresence adc m))
   \<and> (if fst (checkWaterPresence adc m)
       then servo_angles (emitted (inspectBottle echo adc) m) = []
          \<and> Delay 5000 \<notin> set (emitted (inspectBottle echo adc) m)
          \<and> servo (inspectBottle echo adc m) = servo m
       else servo_angles (emitted (inspectBottle echo adc) m)
            = map (\<lambda>k. 2 * int k) [0..<91] @ map (\<lambda>k. 180 - 2 * int k) [0..<91]
          \<and> servo (inspectBottle echo adc m) = Some 0)"
proof -
  have ev: "emitted (inspectBottle echo adc) m =
     ping @ replicate 5 (Delay 10)
     @ display_events (fst (measureBottleHeight echo m))
         (classifyBottleSize (fst (measureBottleHeight echo m)))
         (fst (checkWaterPresence adc m)) (\<not> fst (checkWaterPresence adc m))
     @ [DigitalWrite GREEN_LED (\<not> fst (checkWaterPresence adc m)),
        DigitalWrite RED_LED (fst (checkWaterPresence adc m))]
     @ (if fst (checkWaterPresence adc m) then tone 1000 else accept_events)
     @ log_events (fst (measureBottleHeight echo m))
         (classifyBottleSize (fst (measureBottleHeight echo m)))
         (fst (checkWaterPresence adc m)) (\<not> fst (checkWaterPresence adc m))"
    by (rule emitted_append) (simp add: inspectBottle_eq Let_def)
  have sv: "servo (inspectBottle echo adc m) = (if fst (checkWaterPresence adc m) then servo m else Some 0)"
    by (simp add: inspectBottle_eq Let_def)
  show ?thesis
    unfolding ev sv
    by (simp add: servo_angles_accept_events hold_not_in_quiet)
qed

subsection \<open>Setup and the main loop\<close>

lemma setup'_fields:
  "servo (setup' m) = Some 0"
  "pins (setup' m) = (pins m)(TRIG_PIN := LOW, GREEN_LED := LOW, RED_LED := LOW, BUZZER_PIN := LOW)"
  "lastState (setup' m) = lastState m"
  "lastDebounce (setup' m) = lastDebounce m"
  "adc_reads (setup' m) = adc_reads m"
  by (simp_all add: setup'_def initializeLCD_def startupBeep_eq digitalWrite_eq
      gateServo_write_eq delay_eq SERVO_CLOSED_ANGLE_def)

lemma poll_fields [simp]:
  "pins (snd (poll tk m)) = pins m"
  "servo (snd (poll tk m)) = servo m"
  "adc_reads (snd (poll tk m)) = adc_reads m"
  "trace (snd (poll tk m)) = trace m"
  by (simp_all add: poll_def bottleDetected_def Let_def)

lemma waitForPass_fields:
  "waitForPass tks m = Some (m', tks') \<Longrightarrow>
     pins m' = pins m \<and> servo m' = servo m \<and> adc_reads m' = adc_reads m"
proof (induction tks arbitrary: m)
  case Nil
  then show ?case by simp
next
  case (Cons tk tks)
  show ?case
  proof (cases "fst (poll tk m)")
    case True
    with Cons.prems have "waitForPass tks (delay 10 (snd (poll tk m))) = Some (m', tks')"
      by (simp add: split_beta)
    from Cons.IH [OF this] show ?thesis by (simp add: delay_eq)
  next
    case False
    with Cons.prems have "m' = snd (poll tk m)"
      by (simp add: split_beta)
    then show ?thesis by simp
  qed
qed

lemma loop_fields:
  assumes "loop echo adc tks m = Some (m', tks')"
  shows "pins m' = (if fst (poll (hd tks) m)
                    then pins (inspectBottle echo adc (snd (poll (hd tks) m))) else pins m)"
    and "servo m' = (if fst (poll (hd tks) m)
                     then servo (inspectBottle echo adc (snd (poll (hd tks) m))) else servo m)"
proof -
  obtain tk rest where tks: "tks = tk # rest"
    using assms by (cases tks) simp_all
  show "pins m' = (if fst (poll (hd tks) m)
                    then pins (inspectBottle echo adc (snd (poll (hd tks) m))) else pins m)"
  proof (cases "fst (poll tk m)")
    case True
    with assms tks obtain m2 where
      w: "waitForPass rest (inspectBottle echo adc (snd (poll tk m))) = Some (m2, tks')"
      and m': "m' = seq [delay 2000, emit LcdClear, delay 10] m2"
      by (auto simp: split_beta split: option.splits)
    from waitForPass_fields [OF w] m' True tks show ?thesis
      by (simp add: delay_eq)
  next
    case False
    with assms tks show ?thesis by (auto simp: split_beta delay_eq)
  qed
  show "servo m' = (if fst (poll (hd tks) m)
                     then servo (inspectBottle echo adc (snd (poll (hd tks) m))) else servo m)"
  proof (cases "fst (poll tk m)")
    case True
    with assms tks obtain m2 where
      w: "waitForPass rest (inspectBottle echo adc (snd (poll tk m))) = Some (m2, tks')"
      and m': "m' = seq [delay 2000, emit LcdClear, delay 10] m2"
      by (auto simp: split_beta split: option.splits)
    from waitForPass_fields [OF w] m' True tks show ?thesis
      by (simp add: delay_eq)
  next
    case False
    with assms tks show ?thesis by (auto simp: split_beta delay_eq)
  qed
qed

lemma inspectBottle_servo: "servo m = Some 0 \<Longrightarrow> servo (inspectBottle echo adc m) = Some 0"
  by (simp add: inspectBottle_eq Let_def)

lemma loops_servo:
  "loops echos adc tks m = Some (m', tks') \<Longrightarrow> servo m = Some 0 \<Longrightarrow> servo m' = Some 0"
proof (induction echos arbitrary: tks m)
  case Nil
  then show ?case by simp
next
  case (Cons echo echos)
  from Cons.prems(1) obtain m1 tks1 where
    l: "loop echo adc tks m = Some (m1, tks1)" and ls: "loops echos adc tks1 m1 = Some (m', tks')"
    by (auto split: option.splits)
  have "servo m1 = Some 0"
    using loop_fields(2) [OF l] Cons.prems(2) by (simp add: inspectBottle_servo)
  with Cons.IH [OF ls] show ?case .
qed

lemma water_steady:
  "fst (checkWaterPresence (steady 520) m)" "\<not> fst (checkWaterPresence (steady 100) m)"
  by (simp_all add: checkWaterPresence_def checkWaterPresence_loop_eq steady_def
      CAP_WATER_THRESHOLD_def)

lemma poll_eval:
  "poll (t, l) m =
     (if l \<noteq> lastState m
      then (if (0::32 word) > 50 \<and> \<not> l then (True, m\<lparr>lastDebounce := word_of_nat t\<rparr>)
            else (False, m\<lparr>lastDebounce := word_of_nat t, lastState := l\<rparr>))
      else (if word_of_nat t - lastDebounce m > 50 \<and> \<not> l then (True, m)
            else (False, m\<lparr>lastState := l\<rparr>)))"
  by (simp add: poll_def bottleDetected_def Let_def)

lemmas run_eval = poll_eval setup'_fields power_on_def inspectBottle_eq Let_def water_steady delay_eq


text \<open>
  Claim C10. \<^verbatim>\<open>setup\<close> commands the angle 0; an inspection that starts with the servo
  at 0 ends with the servo at 0, whether the bottle is accepted or rejected; hence after
  \<^verbatim>\<open>setup\<close> and any number of passes through \<^verbatim>\<open>loop()\<close> the last commanded angle is 0.
\<close>

theorem gate_closed_after_inspection:
  "servo (setup' m0) = Some 0
   \<and> (servo m = Some 0 \<longrightarrow> servo (inspectBottle echo adc m) = Some 0)
   \<and> (loops echos adc tks (setup' m0) = Some (m', tks') \<longrightarrow> servo m' = Some 0)"
  using loops_servo [of echos adc tks "setup' m0" m' tks']
  by (simp add: setup'_fields inspectBottle_servo)



text \<open>
  Three passes after power-on, with an empty bottle held in front of the sensor: the second
  pass inspects and accepts it, and the gate is back at 0 at the end.
\<close>

theorem gate_closed_after_inspection_witness:
  "servo (setup' power_on) = Some 0
   \<and> servo (inspectBottle 0 (steady 100) (setup' power_on)) = Some 0
   \<and> map_option (servo \<circ> fst)
        (loops [0, 0, 0] (steady 100)
           [(2000, LOW), (2060, LOW), (9000, LOW), (9010, HIGH), (12020, HIGH)] (setup' power_on))
      = Some (Some 0)"
proof -
  have "loops [0, 0, 0] (steady 100)
          [(2000, LOW), (2060, LOW), (9000, LOW), (9010, HIGH), (12020, HIGH)] (setup' power_on) \<noteq> None"
    by (simp add: run_eval)
  then obtain m' tks' where run: "loops [0, 0, 0] (steady 100)
          [(2000, LOW), (2060, LOW), (9000, LOW), (9010, HIGH), (12020, HIGH)] (setup' power_on)
        = Some (m', tks')"
    by auto
  from gate_closed_after_inspection [where ?m0.0 = power_on and m = "setup' power_on" and echo = 0
      and adc = "steady 100" and echos = "[0, 0, 0]"
      and tks = "[(2000, LOW), (2060, LOW), (9000, LOW), (9010, HIGH), (12020, HIGH)]"
      and m' = m' and tks' = tks']
  have "servo (setup' power_on) = Some 0"
    and "servo (inspectBottle 0 (steady 100) (setup' power_on)) = Some 0"
    and "servo m' = Some 0"
    using run by blast+
  then show ?thesis by (simp only: run option.map comp_apply fst_conv simp_thms)
qed


text \<open>
  Claim C9, as the code has it. An inspection drives the green LED HIGH and the red LED LOW
  when it accepts, the red LED HIGH and the green LED LOW when it rejects. \<^verbatim>\<open>setup\<close>
  drives both LOW. Polling the sensor does not touch them, and a pass through \<^verbatim>\<open>loop()\<close>
  ends with the levels of the inspection it made, or, when it made none, with the levels it
  started with: the LEDs keep the last decision while the controller waits.
\<close>

theorem leds_follow_decision:
  "led_levels (inspectBottle echo adc m)
     = (\<not> fst (checkWaterPresence adc m), fst (checkWaterPresence adc m))
   \<and> led_levels (setup' m) = (LOW, LOW)
   \<and> led_levels (snd (poll tk m)) = led_levels m
   \<and> (loop echo adc tks m = Some (m', tks') \<longrightarrow>
        led_levels m' = (if fst (poll (hd tks) m)
                         then (\<not> fst (checkWaterPresence adc m), fst (checkWaterPresence adc m))
                         else led_levels m))"
proof -
  have insp: "led_levels (inspectBottle echo adc s) 
      = (\<not> fst (checkWaterPresence adc s), fst (checkWaterPresence adc s))" for s
    by (simp add: inspectBottle_eq Let_def led_levels_def
        GREEN_LED_def RED_LED_def BUZZER_PIN_def TRIG_PIN_def)
  have w: "fst (checkWaterPresence adc (snd (poll (hd tks) m))) = fst (checkWaterPresence adc m)"
    by (rule checkWaterPresence_value) simp
  have "led_levels m' = (if fst (poll (hd tks) m)
                         then (\<not> fst (checkWaterPresence adc m), fst (checkWaterPresence adc m))
                         else led_levels m)"
    if l: "loop echo adc tks m = Some (m', tks')"
    using loop_fields(1) [OF l] insp [of "snd (poll (hd tks) m)"]
    by (simp add: led_levels_def w)
  then show ?thesis
    by (simp add: insp) (simp add: led_levels_def setup'_fields GREEN_LED_def RED_LED_def BUZZER_PIN_def TRIG_PIN_def)
qed


text \<open>
  A pass that detects nothing after \<^verbatim>\<open>setup\<close> leaves both LEDs LOW; the next pass, which
  inspects a bottle with liquid, ends with the red LED HIGH.
\<close>

theorem leds_follow_decision_witness:
  "map_option (led_levels \<circ> fst)
     (loop 0 (steady 520) [(2000, LOW), (9000, HIGH)] (setup' power_on)) = Some (LOW, LOW)
   \<and> map_option (led_levels \<circ> fst)
     (loop 0 (steady 520) [(2060, LOW), (9000, HIGH)] (snd (poll (2000, LOW) (setup' power_on))))
       = Some (LOW, HIGH)"
proof -
  have "loop 0 (steady 520) [(2000, LOW), (9000, HIGH)] (setup' power_on) \<noteq> None"
    by (simp add: run_eval)
  then obtain m1 tks1 where
    l1: "loop 0 (steady 520) [(2000, LOW), (9000, HIGH)] (setup' power_on) = Some (m1, tks1)"
    by auto
  have "loop 0 (steady 520) [(2060, LOW), (9000, HIGH)] (snd (poll (2000, LOW) (setup' power_on))) \<noteq> None"
    by (simp add: run_eval)
  then obtain m2 tks2 where
    l2: "loop 0 (steady 520) [(2060, LOW), (9000, HIGH)] (snd (poll (2000, LOW) (setup' power_on)))
          = Some (m2, tks2)"
    by auto
  have p1: "\<not> fst (poll (2000, LOW) (setup' power_on))"
    by (simp add: run_eval)
  have p2: "fst (poll (2060, LOW) (snd (poll (2000, LOW) (setup' power_on))))"
    by (simp add: run_eval)
  have idle: "led_levels (setup' power_on) = (LOW, LOW)"
    using leds_follow_decision [where m = power_on] by simp
  from leds_follow_decision [where echo = 0 and adc = "steady 520" and m = "setup' power_on"
      and tks = "[(2000, LOW), (9000, HIGH)]" and m' = m1 and tks' = tks1]
  have "led_levels m1 = (LOW, LOW)"
    using l1 p1 idle by (simp del: loop.simps)
  moreover
  from leds_follow_decision [where echo = 0 and adc = "steady 520"
      and m = "snd (poll (2000, LOW) (setup' power_on))"
      and tks = "[(2060, LOW), (9000, HIGH)]" and m' = m2 and tks' = tks2]
  have "led_levels m2 = (LOW, HIGH)"
    using l2 p2 by (simp add: water_steady del: loop.simps)
  ultimately show ?thesis
    by (simp only: l1 l2 option.map comp_apply fst_conv simp_thms)
qed


text \<open>
  Claim C9 as stated fails: both LEDs are not LOW whenever the controller is idle. After
  power-on, a bottle with liquid is detected in the second pass and rejected; when that pass
  has returned, the red LED is still HIGH.
\<close>

theorem leds_stay_lit_counterexample:
  "map_option (led_levels \<circ> fst)
     (loops [0, 0] (steady 520) [(2000, LOW), (2060, LOW), (9000, HIGH)] (setup' power_on))
   = Some (LOW, HIGH)"
  by (simp add: run_eval led_levels_def GREEN_LED_def RED_LED_def BUZZER_PIN_def TRIG_PIN_def)

subsection \<open>Debounced detection\<close>

lemma poll_high:
  "fst (poll (t, HIGH) m) = False" "lastState (snd (poll (t, HIGH) m)) = HIGH"
  by (simp_all add: poll_def bottleDetected_def Let_def)

lemma poll_low_new:
  "lastState m = HIGH \<Longrightarrow>
     poll (t, LOW) m = (False, m\<lparr>lastDebounce := word_of_nat t, lastState := LOW\<rparr>)"
  by (simp add: poll_def bottleDetected_def Let_def)

lemma millis_elapsed:
  assumes "t0 \<le> t" "t - t0 < 2 ^ 32"
  shows "(word_of_nat t - word_of_nat t0 > (50 :: 32 word)) \<longleftrightarrow> 50 < t - t0"
proof -
  have "(word_of_nat t - word_of_nat t0 :: 32 word) = word_of_nat (t - t0)"
    using assms(1) by (simp add: of_nat_diff)
  moreover have "unat (word_of_nat (t - t0) :: 32 word) = t - t0"
    using assms(2) by (simp add: unat_of_nat)
  ultimately show ?thesis
    by (simp add: word_less_nat_alt)
qed

lemma poll_low_held:
  assumes "lastState m = LOW" "lastDebounce m = word_of_nat t0" "t0 \<le> t" "t - t0 < 2 ^ 32"
  shows "poll (t, LOW) m = (50 < t - t0, m)"
proof -
  have "m\<lparr>lastState := LOW\<rparr> = m"
    using assms(1) by simp
  then show ?thesis
    using assms(1,2) millis_elapsed [OF assms(3,4)]
    by (simp add: poll_def bottleDetected_def Let_def)
qed

lemma polls_low_held:
  assumes "lastState m = LOW" "lastDebounce m = word_of_nat t0"
    and "\<forall>tk\<in>set run. snd tk = LOW \<and> t0 \<le> fst tk \<and> fst tk - t0 < 2 ^ 32"
  shows "polls run m = (map (\<lambda>tk. 50 < fst tk - t0) run, m)"
  using assms(3)
proof (induction run)
  case Nil
  show ?case by simp
next
  case (Cons tk run)
  obtain t l where tk: "tk = (t, l)" by (cases tk)
  with Cons.prems have "l = LOW" "t0 \<le> t" "t - t0 < 2 ^ 32" by simp_all
  with tk have "poll tk m = (50 < t - t0, m)"
    using poll_low_held [OF assms(1,2)] by simp
  moreover have "polls run m = (map (\<lambda>tk. 50 < fst tk - t0) run, m)"
    using Cons by simp
  ultimately show ?case by (simp add: tk)
qed

lemma polls_append:
  "polls (xs @ ys) m =
     (fst (polls xs m) @ fst (polls ys (snd (polls xs m))), snd (polls ys (snd (polls xs m))))"
  by (induction xs arbitrary: m) (simp_all add: split_beta)

lemma polls_ends_high:
  assumes "pre \<noteq> []" "snd (last pre) = HIGH"
  shows "lastState (snd (polls pre m)) = HIGH"
proof -
  obtain t where "pre = butlast pre @ [(t, HIGH)]"
    using assms by (metis append_butlast_last_id prod.collapse)
  then have "polls pre m = polls (butlast pre @ [(t, HIGH)]) m" by simp
  then show ?thesis
    by (simp only: polls_append) (simp add: split_beta poll_high)
qed


lemma millis_elapsed_mod:
  assumes "t0 \<le> t"
  shows "(word_of_nat t - word_of_nat t0 > (50 :: 32 word)) \<longleftrightarrow> 50 < (t - t0) mod 2 ^ 32"
proof -
  have "(word_of_nat t - word_of_nat t0 :: 32 word) = word_of_nat (t - t0)"
    using assms by (simp add: of_nat_diff)
  moreover have "unat (word_of_nat (t - t0) :: 32 word) = (t - t0) mod 2 ^ 32"
    by (simp add: unat_of_nat)
  ultimately show ?thesis
    by (simp add: word_less_nat_alt)
qed

lemma poll_low_held_mod:
  assumes "lastState m = LOW" "lastDebounce m = word_of_nat t0" "t0 \<le> t"
  shows "poll (t, LOW) m = (50 < (t - t0) mod 2 ^ 32, m)"
proof -
  have "m\<lparr>lastState := LOW\<rparr> = m"
    using assms(1) by simp
  then show ?thesis
    using assms(1,2) millis_elapsed_mod [OF assms(3)]
    by (simp add: poll_def bottleDetected_def Let_def)
qed

lemma polls_low_held_mod:
  assumes "lastState m = LOW" "lastDebounce m = word_of_nat t0"
    and "\<forall>tk\<in>set run. snd tk = LOW \<and> t0 \<le> fst tk"
  shows "polls run m = (map (\<lambda>tk. 50 < (fst tk - t0) mod 2 ^ 32) run, m)"
  using assms(3)
proof (induction run)
  case Nil
  show ?case by simp
next
  case (Cons tk run)
  obtain t l where tk: "tk = (t, l)" by (cases tk)
  with Cons.prems have "l = LOW" "t0 \<le> t" by simp_all
  with tk have "poll tk m = (50 < (t - t0) mod 2 ^ 32, m)"
    using poll_low_held_mod [OF assms(1,2)] by simp
  moreover have "polls run m = (map (\<lambda>tk. 50 < (fst tk - t0) mod 2 ^ 32) run, m)"
    using Cons by simp
  ultimately show ?case by (simp add: tk)
qed

text \<open>
  Claim C5, as the code has it. Take any sequence of calls, and in it a run of consecutive
  \<open>LOW\<close> readings, in the order of the clock, that follows a \<open>HIGH\<close> reading (or starts
  the sequence, in a state whose last level is \<open>HIGH\<close>, as at power-on).
  \<^verbatim>\<open>bottleDetected\<close> returns false at the first call of the run and, at every later call
  of the run, true exactly when the time since the first call, as the 32-bit clock
  \<^verbatim>\<open>millis()\<close> counts it (modulo \<open>2 ^ 32\<close> ms), is more than 50 ms. So, during the
  first \<open>2 ^ 32\<close> ms of a run, every call made more than 50 ms after the first reports a
  detection, not only one.
\<close>

theorem detection_repeats_while_low:
  assumes "pre = [] \<and> lastState m = HIGH \<or> pre \<noteq> [] \<and> snd (last pre) = HIGH"
    and "\<forall>tk\<in>set run. snd tk = LOW \<and> t0 \<le> fst tk"
  shows "fst (polls (pre @ (t0, LOW) # run) m)
           = fst (polls pre m) @ False # map (\<lambda>tk. 50 < (fst tk - t0) mod 2 ^ 32) run"
proof -
  define m1 where "m1 = snd (polls pre m)"
  have high: "lastState m1 = HIGH"
    using assms(1) polls_ends_high [of pre m] by (auto simp: m1_def)
  define m2 where "m2 = m1\<lparr>lastDebounce := word_of_nat t0, lastState := LOW\<rparr>"
  have first: "poll (t0, LOW) m1 = (False, m2)"
    unfolding m2_def by (rule poll_low_new [OF high])
  have "polls run m2 = (map (\<lambda>tk. 50 < (fst tk - t0) mod 2 ^ 32) run, m2)"
    by (rule polls_low_held_mod [OF _ _ assms(2)]) (simp_all add: m2_def)
  with first have "fst (polls ((t0, LOW) # run) m1)
      = False # map (\<lambda>tk. 50 < (fst tk - t0) mod 2 ^ 32) run"
    by simp
  then show ?thesis
    by (simp only: polls_append m1_def fst_conv)
qed


text \<open>
  A run of \<open>LOW\<close> readings from 1000 ms on, after a \<open>HIGH\<close> reading: the calls at 1060,
  2100 and 2110 ms all return true. The call at 4294968306 ms, where the 32-bit difference
  has wrapped to 10, returns false, and the call at 4294968400 ms (difference 104) true.
\<close>

theorem detection_repeats_while_low_witness:
  "fst (polls [(900, HIGH), (1000, LOW), (1030, LOW), (1060, LOW), (2100, LOW), (2110, LOW),
               (4294968306, LOW), (4294968400, LOW)] power_on)
     = [False, False, False, True, True, True, False, True]"
  using detection_repeats_while_low [of "[(900, HIGH)]" power_on
      "[(1030, LOW), (1060, LOW), (2100, LOW), (2110, LOW), (4294968306, LOW), (4294968400, LOW)]" 1000]
  by (simp add: split_beta poll_high)


text \<open>
  Claim C5 as stated fails: in one interval of \<open>LOW\<close> readings, held from 1000 ms on, the
  calls at 1060, 2100 and 2110 ms each report a detection. \<^verbatim>\<open>loop()\<close> relies on this: its
  \<^verbatim>\<open>while (bottleDetected())\<close> waits for the bottle to pass.
\<close>

theorem detection_repeats_counterexample:
  "fst (polls [(1000, LOW), (1030, LOW), (1060, LOW), (2100, LOW), (2110, LOW)] power_on)
     = [False, False, True, True, True]"
  by (simp add: poll_def bottleDetected_def Let_def power_on_def)

declare low_runs.simps [simp del]

lemma sorted_le_last: "sorted xs \<Longrightarrow> x \<in> set xs \<Longrightarrow> x \<le> last xs"
  by (induction xs) (auto split: if_splits)

lemma polls_chatter:
  assumes "sorted (map fst tks)"
    and "list_all (\<lambda>run. last run - hd run \<le> 50) (low_runs tks)"
    and "lastState m = HIGH \<or> tks = [] \<or> snd (hd tks) = HIGH"
  shows "True \<notin> set (fst (polls tks m))"
  using assms
proof (induction tks arbitrary: m rule: low_runs.induct)
  case 1
  show ?case by simp
next
  case (2 tk tks)
  obtain t l where tk: "tk = (t, l)" by (cases tk)
  show ?case
  proof (cases l)
    case True
    have runs: "low_runs (tk # tks) = low_runs tks"
      using True tk by (simp add: low_runs.simps)
    have "True \<notin> set (fst (polls tks (snd (poll tk m))))"
    proof (rule "2.IH"(2))
      show "snd tk \<noteq> LOW" using True tk by simp
      show "sorted (map fst tks)" using "2.prems"(1) by simp
      show "list_all (\<lambda>run. last run - hd run \<le> 50) (low_runs tks)"
        using "2.prems"(2) runs by simp
      show "lastState (snd (poll tk m)) = HIGH \<or> tks = [] \<or> snd (hd tks) = HIGH"
        using True tk by (simp add: poll_high)
    qed
    then show ?thesis
      using True tk by (simp add: split_beta poll_high)
  next
    case False
    define run where "run = takeWhile (\<lambda>x. snd x = LOW) tks"
    define rest where "rest = dropWhile (\<lambda>x. snd x = LOW) tks"
    have tks: "tks = run @ rest"
      by (simp add: run_def rest_def)
    have runs: "low_runs (tk # tks) = (t # map fst run) # low_runs rest"
      using False tk by (simp add: low_runs.simps run_def rest_def)
    have high: "lastState m = HIGH"
      using "2.prems"(3) False tk by simp
    define m1 where "m1 = m\<lparr>lastDebounce := word_of_nat t, lastState := LOW\<rparr>"
    have first: "poll tk m = (False, m1)"
      using poll_low_new [OF high, of t] False tk by (simp add: m1_def)
    have span: "last (t # map fst run) - t \<le> 50"
      using "2.prems"(2) runs by simp
    have sorted_run: "sorted (t # map fst run)"
      using "2.prems"(1) tk tks by (simp add: sorted_append)
    have in_run: "snd x = LOW \<and> t \<le> fst x \<and> fst x - t < 2 ^ 32 \<and> \<not> 50 < fst x - t"
      if "x \<in> set run" for x
    proof -
      have "snd x = LOW"
        using that set_takeWhileD [of x "\<lambda>x. snd x = LOW" tks] by (simp add: run_def)
      moreover have "t \<le> fst x"
        using sorted_run that by auto
      moreover have "fst x \<le> last (t # map fst run)"
        using sorted_le_last [OF sorted_run, of "fst x"] that by simp
      then have "fst x - t \<le> 50"
        using span by simp
      ultimately show ?thesis by simp
    qed
    have held: "polls run m1 = (map (\<lambda>tk. 50 < fst tk - t) run, m1)"
      by (rule polls_low_held) (use in_run in \<open>simp_all add: m1_def\<close>)
    have quiet: "True \<notin> set (map (\<lambda>tk. 50 < fst tk - t) run)"
      using in_run by auto
    have "True \<notin> set (fst (polls rest m1))"
      unfolding rest_def
    proof (rule "2.IH"(1))
      show "snd tk = LOW" using False tk by simp
      have "sorted (map fst (run @ rest))"
        using "2.prems"(1) by (simp flip: tks)
      then have "sorted (map fst rest)"
        by (simp add: sorted_append)
      then show "sorted (map fst (dropWhile (\<lambda>x. snd x = LOW) tks))"
        unfolding rest_def .
      show "list_all (\<lambda>run. last run - hd run \<le> 50) (low_runs (dropWhile (\<lambda>x. snd x = LOW) tks))"
        using "2.prems"(2) runs by (simp add: rest_def)
      show "lastState m1 = HIGH \<or> dropWhile (\<lambda>x. snd x = LOW) tks = []
          \<or> snd (hd (dropWhile (\<lambda>x. snd x = LOW) tks)) = HIGH"
        using hd_dropWhile [of "\<lambda>x. snd x = LOW" tks] by auto
    qed
    with quiet held first show ?thesis
      by (simp add: tks polls_append split_beta)
  qed
qed


text \<open>
  Claim C6. From a state whose last level is \<open>HIGH\<close>, as at power-on, and with calls in
  the order of the clock: when every maximal run of consecutive \<open>LOW\<close> readings spans at
  most 50 ms (in particular when each change of level comes less than 50 ms after the
  previous one), no call of \<^verbatim>\<open>bottleDetected\<close> returns true.
\<close>

theorem chatter_never_detected:
  assumes "lastState m = HIGH"
    and "sorted (map fst tks)"
    and "list_all (\<lambda>run. last run - hd run \<le> 50) (low_runs tks)"
  shows "True \<notin> set (fst (polls tks m))"
  using polls_chatter [OF assms(2,3)] assms(1) by simp


text \<open>
  A level that changes at 1000, 1040, 1050 and 1110 ms: the two runs of \<open>LOW\<close> readings
  span 20 and 50 ms, and no call reports a detection.
\<close>

theorem chatter_never_detected_witness:
  "fst (polls [(1000, LOW), (1020, LOW), (1040, HIGH), (1050, LOW), (1100, LOW), (1110, HIGH)] power_on)
     = [False, False, False, False, False, False]"
proof -
  have "True \<notin> set (fst (polls
      [(1000, LOW), (1020, LOW), (1040, HIGH), (1050, LOW), (1100, LOW), (1110, HIGH)] power_on))"
    by (rule chatter_never_detected) (simp_all add: power_on_def low_runs.simps)
  then show ?thesis
    by (simp add: split_beta) 
qed


end
